theory Spec2Isabelle
  imports Main "HOL-Library.AList" "HOL-Library.Sublist"
begin

section \<open>The event hub of relay/nakama/events.go\<close>

text \<open>
  The hub keeps one upstream websocket connection, a registry of subscriber channels
  (a \<^verbatim>\<open>sync.Map\<close> from session key to \<^verbatim>\<open>chan *Event\<close>) and an atomic shutdown
  flag. The model is sequential: every function takes the state and returns the new one.
  Calls made by other goroutines while \<^verbatim>\<open>Dispatch\<close> runs are taken to happen between
  two passes through its loop, just before it evaluates the loop condition; a call that
  overlaps a pass is not modelled.
\<close>

subsection \<open>Error values\<close>

text \<open>
  Go errors are interface values that hold pointers. The only comparison of errors in the
  program is \<^verbatim>\<open>errors.Is(err, &net.DNSError{})\<close>, whose target has dynamic type
  \<^verbatim>\<open>*net.DNSError\<close>; so a \<^verbatim>\<open>*net.DNSError\<close> carries its address, and the other
  errors carry what they print or wrap.
\<close>

datatype error =
    ErrorString string
  | RuntimeError string
  | DNSError nat string
  | OpError string error
  | JoinError "error list"

definition errors_New :: "string \<Rightarrow> error" where
  "errors_New text = ErrorString text"

text \<open>
  \<^verbatim>\<open>errors.Join\<close> discards the nil errors, returns nil when none is left and wraps the
  others, in order, otherwise.
\<close>

definition errors_Join :: "error option list \<Rightarrow> error option" where
  "errors_Join errs =
     (let es = List.map_filter id errs
      in if es = [] then None else Some (JoinError es))"

text \<open>The addresses of the \<^verbatim>\<open>*net.DNSError\<close> objects reachable from an error.\<close>

fun pointers :: "error \<Rightarrow> nat list" where
  "pointers (ErrorString m) = []"
| "pointers (RuntimeError m) = []"
| "pointers (DNSError a m) = [a]"
| "pointers (OpError op e) = pointers e"
| "pointers (JoinError es) = concat (map pointers es)"

text \<open>
  \<^verbatim>\<open>errors.Is(err, target)\<close> for a target of dynamic type \<^verbatim>\<open>*net.DNSError\<close> stored at
  address \<open>target\<close>. The library walks the tree that \<^verbatim>\<open>Unwrap\<close> spans and reports a
  match where \<^verbatim>\<open>err == target\<close> (for pointers: the same address) or where the error has
  an \<^verbatim>\<open>Is\<close> method that accepts the target; none of the error types here has one.
\<close>

fun errors_Is :: "error \<Rightarrow> nat \<Rightarrow> bool" where
  "errors_Is (ErrorString m) target = False"
| "errors_Is (RuntimeError m) target = False"
| "errors_Is (DNSError a m) target = (a = target)"
| "errors_Is (OpError op e) target = errors_Is e target"
| "errors_Is (JoinError es) target = list_ex (\<lambda>e. errors_Is e target) es"

text \<open>
  The address of the object that the composite literal \<^verbatim>\<open>&net.DNSError{}\<close> allocates
  while \<open>err\<close> is live: an allocation never returns the address of a live object.
\<close>

definition new_DNSError :: "error \<Rightarrow> nat" where
  "new_DNSError err = Suc (foldr max (pointers err) 0)"

subsection \<open>Events, channels and the hub\<close>

record Event =
  message :: string

text \<open>A channel object: whether it was closed, and the events sent on it, oldest first.\<close>

record chan =
  chan_closed :: bool
  chan_sent :: "Event list"

text \<open>
  A value stored in the \<^verbatim>\<open>sync.Map\<close> has static type \<^verbatim>\<open>any\<close>: it is a
  \<^verbatim>\<open>chan *Event\<close> (the address of a channel object) or something else.
\<close>

datatype any = Chan nat | NotChan

text \<open>
  The upstream connection. Reading is driven by the list of frames that \<^verbatim>\<open>Dispatch\<close>
  is given; of the connection itself only the result of \<^verbatim>\<open>Close()\<close> matters.
\<close>

record Conn =
  close_error :: "error option"

text \<open>What the program does to the outside, in the order in which it does it.\<close>

datatype effect =
    Println string
  | Dial string
  | LogInfo string
  | LogInfoError error
  | Sleep nat
  | ReadMessage
  | ConnClose
  | ChanSend nat Event
  | ChanClose nat
  | MapStore string any
  | MapDelete string

text \<open>
  The hub and the memory it points to. The first three fields are those of
  \<^verbatim>\<open>EventHub\<close>; \<open>channels\<close> lists the registry in the order in which \<^verbatim>\<open>Range\<close>
  visits it (its keys are distinct in a well-formed state). \<open>heap\<close> holds the channel
  objects, a channel's address being its index; \<open>trace\<close> records the effects.
\<close>

record state =
  inputConnection :: Conn
  channels :: "(string \<times> any) list"
  didShutdown :: bool
  heap :: "chan list"
  trace :: "effect list"

text \<open>
  A call returns, panics, or blocks for ever (a read from an upstream that sends nothing
  more, a send on a nil channel).
\<close>

datatype 'a result = Return 'a state | Panic error state | Block state

definition emit :: "effect \<Rightarrow> state \<Rightarrow> state" where
  "emit e s = s\<lparr>trace := trace s @ [e]\<rparr>"

subsection \<open>Channel primitives\<close>

text \<open>\<^verbatim>\<open>make(chan *Event)\<close>: a new open channel at the next free address.\<close>

definition make_chan :: "state \<Rightarrow> nat \<times> state" where
  "make_chan s =
     (length (heap s), s\<lparr>heap := heap s @ [\<lparr>chan_closed = False, chan_sent = []\<rparr>]\<rparr>)"

text \<open>
  \<^verbatim>\<open>channel <- ev\<close>. An address outside the heap stands for the nil channel, on which a
  send blocks for ever; a send on a closed channel panics; otherwise a receiver is taken
  to be ready and the event is handed over.
\<close>

definition chan_send :: "nat \<Rightarrow> Event \<Rightarrow> state \<Rightarrow> unit result" where
  "chan_send c ev s =
     (if length (heap s) \<le> c then Block s
      else if chan_closed (heap s ! c) then Panic (RuntimeError ''send on closed channel'') s
      else Return ()
        (emit (ChanSend c ev)
          (s\<lparr>heap := (heap s)[c := (heap s ! c)\<lparr>chan_sent := chan_sent (heap s ! c) @ [ev]\<rparr>]\<rparr>)))"

text \<open>\<^verbatim>\<open>close(channel)\<close> panics on the nil channel and on a closed channel.\<close>

definition chan_close :: "nat \<Rightarrow> state \<Rightarrow> unit result" where
  "chan_close c s =
     (if length (heap s) \<le> c then Panic (RuntimeError ''close of nil channel'') s
      else if chan_closed (heap s ! c) then Panic (RuntimeError ''close of closed channel'') s
      else Return ()
        (emit (ChanClose c) (s\<lparr>heap := (heap s)[c := (heap s ! c)\<lparr>chan_closed := True\<rparr>]\<rparr>)))"

subsection \<open>Subscribe, Unsubscribe, Shutdown\<close>

definition Subscribe :: "string \<Rightarrow> state \<Rightarrow> nat result" where
  "Subscribe session s =
     (let (channel, s1) = make_chan s;
          s2 = emit (MapStore session (Chan channel))
                 (s1\<lparr>channels := AList.update session (Chan channel) (channels s1)\<rparr>)
      in Return channel s2)"

definition Unsubscribe :: "string \<Rightarrow> state \<Rightarrow> unit result" where
  "Unsubscribe session s =
     (case map_of (channels s) session of
        None \<Rightarrow> Panic (errors_New ''session not found'') s
      | Some NotChan \<Rightarrow>
          Panic (errors_New ''found object that was not a event channel in event hub'') s
      | Some (Chan eventChannel) \<Rightarrow>
          (case chan_close eventChannel s of
             Return u s1 \<Rightarrow>
               Return ()
                 (emit (MapDelete session)
                   (s1\<lparr>channels := AList.delete session (channels s1)\<rparr>))
           | Panic p s1 \<Rightarrow> Panic p s1
           | Block s1 \<Rightarrow> Block s1))"

definition Shutdown :: "state \<Rightarrow> state" where
  "Shutdown s = s\<lparr>didShutdown := True\<rparr>"

subsection \<open>Dispatch\<close>

text \<open>
  What \<^verbatim>\<open>ReadMessage\<close> returns: the message type, the payload and the error.
\<close>

type_synonym frame = "int \<times> string \<times> error option"

definition TextMessage :: int where
  "TextMessage = 1"

text \<open>
  The first \<^verbatim>\<open>Range\<close>, over the entries still to visit. \<open>err\<close> is the variable that
  the closure assigns: the one declared by \<^verbatim>\<open>:=\<close> in the loop body. Returning
  \<^verbatim>\<open>false\<close> ends the iteration.
\<close>

fun range_send :: "string \<Rightarrow> (string \<times> any) list \<Rightarrow> error option \<Rightarrow> state \<Rightarrow> (error option) result" where
  "range_send msg [] err s = Return err s"
| "range_send msg ((key, NotChan) # rest) err s =
     Return (Some (errors_New ''not a channel'')) (Shutdown s)"
| "range_send msg ((key, Chan channel) # rest) err s =
     (case chan_send channel \<lparr>message = msg\<rparr> s of
        Return u s1 \<Rightarrow> range_send msg rest err s1
      | Panic p s1 \<Rightarrow> Panic p s1
      | Block s1 \<Rightarrow> Block s1)"

text \<open>
  One pass through the loop body, for the frame that \<^verbatim>\<open>ReadMessage\<close> returns. The
  body declares its own \<open>err\<close>; nothing in it assigns the \<open>err\<close> of the function.
\<close>

definition iteration :: "frame \<Rightarrow> state \<Rightarrow> unit result" where
  "iteration fr s =
     (case fr of (messageType, msg, err) \<Rightarrow>
        let s1 = emit ReadMessage s in
        if err \<noteq> None then Return () (Shutdown s1)
        else if messageType \<noteq> TextMessage then Return () (Shutdown s1)
        else (case range_send msg (channels s1) err s1 of
                Return err1 s2 \<Rightarrow>
                  if err1 \<noteq> None then Return () (Shutdown s2) else Return () s2
              | Panic p s2 \<Rightarrow> Panic p s2
              | Block s2 \<Rightarrow> Block s2))"

text \<open>Calls of the hub's methods by other goroutines.\<close>

datatype hub_call = CallSubscribe string | CallUnsubscribe string | CallShutdown

fun call :: "hub_call \<Rightarrow> state \<Rightarrow> unit result" where
  "call (CallSubscribe session) s =
     (case Subscribe session s of
        Return c s1 \<Rightarrow> Return () s1 | Panic p s1 \<Rightarrow> Panic p s1 | Block s1 \<Rightarrow> Block s1)"
| "call (CallUnsubscribe session) s = Unsubscribe session s"
| "call CallShutdown s = Return () (Shutdown s)"

fun calls :: "hub_call list \<Rightarrow> state \<Rightarrow> unit result" where
  "calls [] s = Return () s"
| "calls (c # cs) s =
     (case call c s of
        Return u s1 \<Rightarrow> calls cs s1 | Panic p s1 \<Rightarrow> Panic p s1 | Block s1 \<Rightarrow> Block s1)"

definition first_calls :: "hub_call list list \<Rightarrow> hub_call list" where
  "first_calls env = (case env of [] \<Rightarrow> [] | cs # rest \<Rightarrow> cs)"

text \<open>
  The loop \<^verbatim>\<open>for !eh.didShutdown.Load()\<close>. \<open>env\<close> lists, for each evaluation of the
  condition, the calls that other goroutines complete just before it (none once the list
  is used up); \<open>frames\<close> is what the upstream still delivers, and a read from an
  upstream that delivers nothing more blocks. \<open>err\<close> is the variable declared by
  \<^verbatim>\<open>var err error\<close>.
\<close>

fun loop :: "hub_call list list \<Rightarrow> frame list \<Rightarrow> error option \<Rightarrow> state \<Rightarrow> (error option) result" where
  "loop env [] err s =
     (case calls (first_calls env) s of
        Return u s0 \<Rightarrow> if didShutdown s0 then Return err s0 else Block s0
      | Panic p s0 \<Rightarrow> Panic p s0
      | Block s0 \<Rightarrow> Block s0)"
| "loop env (fr # frames) err s =
     (case calls (first_calls env) s of
        Return u s0 \<Rightarrow>
          if didShutdown s0 then Return err s0
          else (case iteration fr s0 of
                  Return u1 s1 \<Rightarrow> loop (tl env) frames err s1
                | Panic p s1 \<Rightarrow> Panic p s1
                | Block s1 \<Rightarrow> Block s1)
      | Panic p s0 \<Rightarrow> Panic p s0
      | Block s0 \<Rightarrow> Block s0)"

text \<open>The second \<^verbatim>\<open>Range\<close>, over the entries still to visit.\<close>

fun range_unsubscribe :: "(string \<times> any) list \<Rightarrow> state \<Rightarrow> unit result" where
  "range_unsubscribe [] s = Return () s"
| "range_unsubscribe ((key, v) # rest) s =
     (case Unsubscribe key (emit (LogInfo (''shutting down: '' @ key)) s) of
        Return u s1 \<Rightarrow> range_unsubscribe rest s1
      | Panic p s1 \<Rightarrow> Panic p s1
      | Block s1 \<Rightarrow> Block s1)"

definition conn_Close :: "state \<Rightarrow> error option \<times> state" where
  "conn_Close s = (close_error (inputConnection s), emit ConnClose s)"

text \<open>What follows the loop: the second \<^verbatim>\<open>Range\<close>, closing the connection, the join.\<close>

definition teardown :: "error option \<Rightarrow> state \<Rightarrow> (error option) result" where
  "teardown err s =
     (case range_unsubscribe (channels s) s of
        Return u s1 \<Rightarrow>
          (let (closeErr, s2) = conn_Close s1 in Return (errors_Join [closeErr, err]) s2)
      | Panic p s1 \<Rightarrow> Panic p s1
      | Block s1 \<Rightarrow> Block s1)"

definition Dispatch :: "hub_call list list \<Rightarrow> frame list \<Rightarrow> state \<Rightarrow> (error option) result" where
  "Dispatch env frames s =
     (case loop env frames None s of
        Return err s1 \<Rightarrow> teardown err s1
      | Panic p s1 \<Rightarrow> Panic p s1
      | Block s1 \<Rightarrow> Block s1)"

subsection \<open>createEventHub\<close>

text \<open>
  \<^verbatim>\<open>Dial\<close> returns a connection and a nil error, or no connection and an error.
\<close>

datatype dial_result = Connected Conn | DialFailed error

text \<open>
  The loop \<^verbatim>\<open>for err != nil\<close> and what follows it, for the result of the last
  \<^verbatim>\<open>Dial\<close>. \<open>script\<close> lists the results of the later calls of \<^verbatim>\<open>Dial\<close>; the
  value is \<open>None\<close> when the function dials more often than the script is long.
  Otherwise it is the pair that the function returns, with the effects so far.
\<close>

fun dial_loop :: "string \<Rightarrow> dial_result list \<Rightarrow> dial_result \<Rightarrow> effect list \<Rightarrow>
    (state option \<times> error option \<times> effect list) option" where
  "dial_loop url script (Connected webSocketConnection) tr =
     Some (Some \<lparr>inputConnection = webSocketConnection, channels = [],
                  didShutdown = False, heap = [], trace = []\<rparr>, None, tr)"
| "dial_loop url script (DialFailed err) tr =
     (if errors_Is err (new_DNSError err) then
        (case script of
           [] \<Rightarrow> None
         | r # script1 \<Rightarrow>
             dial_loop url script1 r
               (tr @ [LogInfo ''No host found.'', LogInfoError err, Sleep 2, Dial url]))
      else Some (None, Some err, tr))"

definition createEventHub :: "string \<Rightarrow> dial_result list \<Rightarrow>
    (state option \<times> error option \<times> effect list) option" where
  "createEventHub url script =
     (case script of
        [] \<Rightarrow> None
      | r # script1 \<Rightarrow> dial_loop url script1 r [Println url, Dial url])"

subsection \<open>Example states\<close>

text \<open>A new hub whose connection closes without error.\<close>

definition hub0 :: state where
  "hub0 = \<lparr>inputConnection = \<lparr>close_error = None\<rparr>, channels = [],
            didShutdown = False, heap = [], trace = []\<rparr>"

text \<open>A hub with the open channels 0 and 1 registered for the sessions A and B.\<close>

definition hubAB :: state where
  "hubAB = \<lparr>inputConnection = \<lparr>close_error = None\<rparr>,
             channels = [(''A'', Chan 0), (''B'', Chan 1)],
             didShutdown = False,
             heap = [\<lparr>chan_closed = False, chan_sent = []\<rparr>,
                     \<lparr>chan_closed = False, chan_sent = []\<rparr>],
             trace = []\<rparr>"

subsection \<open>Outcomes\<close>

text \<open>The state in which a call ends, whether it returns, panics or blocks.\<close>

definition state_of :: "'a result \<Rightarrow> state" where
  "state_of r = (case r of Return x s \<Rightarrow> s | Panic p s \<Rightarrow> s | Block s \<Rightarrow> s)"

text \<open>
  What no method of the hub changes before the connection is closed: the connection is
  the same, a set shutdown flag stays set, and no \<^verbatim>\<open>Close\<close> of the connection
  is added to the effects.
\<close>

definition keeps :: "state \<Rightarrow> state \<Rightarrow> bool" where
  "keeps s s' \<longleftrightarrow>
     inputConnection s' = inputConnection s \<and>
     (didShutdown s \<longrightarrow> didShutdown s') \<and>
     count_list (trace s') ConnClose = count_list (trace s) ConnClose"

subsection \<open>Registries of open channels\<close>

text \<open>The registry entries for a list of session keys with their channels.\<close>

definition entries :: "(string \<times> nat) list \<Rightarrow> (string \<times> any) list" where
  "entries reg = map (\<lambda>(key, c). (key, Chan c)) reg"

text \<open>
  The sessions and channels that a \<^verbatim>\<open>Range\<close> over the registry visits before it
  comes to an entry that is not a channel: all of them when there is no such entry.
\<close>

fun visited :: "(string \<times> any) list \<Rightarrow> (string \<times> nat) list" where
  "visited [] = []"
| "visited ((key, Chan c) # rest) = (key, c) # visited rest"
| "visited ((key, NotChan) # rest) = []"

text \<open>No session and no channel occurs twice, and every channel is allocated and open.\<close>

definition open_channels :: "(string \<times> nat) list \<Rightarrow> state \<Rightarrow> bool" where
  "open_channels reg s \<longleftrightarrow>
     distinct (map fst reg) \<and> distinct (map snd reg) \<and>
     (\<forall>c \<in> set (map snd reg). c < length (heap s) \<and> \<not> chan_closed (heap s ! c))"

text \<open>
  The registry holds only channels, and these are open and registered once. This is so
  in a new hub, and every method of the hub keeps it so.
\<close>

definition well_formed :: "state \<Rightarrow> bool" where
  "well_formed s \<longleftrightarrow>
     channels s = entries (visited (channels s)) \<and> open_channels (visited (channels s)) s"

subsection \<open>What a channel has received\<close>



section \<open>Properties\<close>

subsection \<open>Basic facts\<close>

lemma emit_simps:
  "inputConnection (emit e s) = inputConnection s"
  "channels (emit e s) = channels s"
  "didShutdown (emit e s) = didShutdown s"
  "heap (emit e s) = heap s"
  "trace (emit e s) = trace s @ [e]"
  by (simp_all add: emit_def)

lemma Shutdown_simps:
  "inputConnection (Shutdown s) = inputConnection s"
  "channels (Shutdown s) = channels s"
  "didShutdown (Shutdown s) = True"
  "heap (Shutdown s) = heap s"
  "trace (Shutdown s) = trace s"
  by (simp_all add: Shutdown_def)

lemma set_update_distinct:
  "distinct (map fst al) \<Longrightarrow>
   set (AList.update k v al) = insert (k, v) {p \<in> set al. fst p \<noteq> k}"
proof (induction al)
  case Nil
  then show ?case by simp
next
  case (Cons p al)
  then show ?case by (cases p) (auto simp: image_iff)
qed

lemma Subscribe_eq:
  "Subscribe session s =
     Return (length (heap s))
       (s\<lparr>channels := AList.update session (Chan (length (heap s))) (channels s),
          heap := heap s @ [\<lparr>chan_closed = False, chan_sent = []\<rparr>],
          trace := trace s @ [MapStore session (Chan (length (heap s)))]\<rparr>)"
  by (simp add: Subscribe_def make_chan_def emit_def)

lemma Unsubscribe_open:
  assumes "map_of (channels s) session = Some (Chan c)"
    and "c < length (heap s)" and "\<not> chan_closed (heap s ! c)"
  shows "Unsubscribe session s =
    Return () (s\<lparr>channels := AList.delete session (channels s),
                 heap := (heap s)[c := (heap s ! c)\<lparr>chan_closed := True\<rparr>],
                 trace := trace s @ [ChanClose c, MapDelete session]\<rparr>)"
  using assms by (simp add: Unsubscribe_def chan_close_def emit_def)

subsection \<open>What every step keeps\<close>

lemma state_of_simps [simp]:
  "state_of (Return x s) = s" "state_of (Panic p s) = s" "state_of (Block s) = s"
  by (simp_all add: state_of_def)

lemma keeps_refl: "keeps s s"
  by (simp add: keeps_def)

lemma keeps_trans: "keeps a b \<Longrightarrow> keeps b c \<Longrightarrow> keeps a c"
  by (simp add: keeps_def)

lemma keeps_Shutdown: "keeps s (Shutdown s)"
  by (simp add: keeps_def Shutdown_def)

lemma keeps_emit: "e \<noteq> ConnClose \<Longrightarrow> keeps s (emit e s)"
  by (simp add: keeps_def emit_def)

lemma keeps_chan_send: "keeps s (state_of (chan_send c ev s))"
  by (simp add: chan_send_def keeps_def emit_def)

lemma keeps_chan_close: "keeps s (state_of (chan_close c s))"
  by (simp add: chan_close_def keeps_def emit_def)

lemma keeps_Subscribe: "keeps s (state_of (Subscribe session s))"
  by (simp add: Subscribe_eq keeps_def)

lemma keeps_Unsubscribe: "keeps s (state_of (Unsubscribe session s))"
proof (cases "map_of (channels s) session")
  case None
  then show ?thesis by (simp add: Unsubscribe_def keeps_refl)
next
  case (Some v)
  show ?thesis
  proof (cases v)
    case NotChan
    with Some show ?thesis by (simp add: Unsubscribe_def keeps_refl)
  next
    case (Chan c)
    have k: "keeps s (state_of (chan_close c s))" by (rule keeps_chan_close)
    show ?thesis
      using Some Chan k
      by (cases "chan_close c s") (simp_all add: Unsubscribe_def keeps_def emit_def)
  qed
qed

lemma keeps_call: "keeps s (state_of (call c s))"
proof (cases c)
  case (CallSubscribe session)
  have "keeps s (state_of (Subscribe session s))" by (rule keeps_Subscribe)
  with CallSubscribe show ?thesis by (cases "Subscribe session s") simp_all
next
  case (CallUnsubscribe session)
  then show ?thesis by (simp add: keeps_Unsubscribe)
next
  case CallShutdown
  then show ?thesis by (simp add: keeps_Shutdown)
qed

lemma keeps_calls: "keeps s (state_of (calls cs s))"
proof (induction cs arbitrary: s)
  case Nil
  show ?case by (simp add: keeps_refl)
next
  case (Cons c cs)
  have k: "keeps s (state_of (call c s))" by (rule keeps_call)
  show ?case
  proof (cases "call c s")
    case (Return u s1)
    with k Cons [of s1] show ?thesis by (auto intro: keeps_trans)
  next
    case (Panic p s1)
    with k show ?thesis by simp
  next
    case (Block s1)
    with k show ?thesis by simp
  qed
qed

lemma keeps_range_send: "keeps s (state_of (range_send msg reg err s))"
proof (induction msg reg err s rule: range_send.induct)
  case (1 msg err s)
  show ?case by (simp add: keeps_refl)
next
  case (2 msg key rest err s)
  show ?case by (simp add: keeps_Shutdown)
next
  case (3 msg key channel rest err s)
  have k: "keeps s (state_of (chan_send channel \<lparr>message = msg\<rparr> s))"
    by (rule keeps_chan_send)
  show ?case
  proof (cases "chan_send channel \<lparr>message = msg\<rparr> s")
    case (Return u s1)
    with k 3 [of u s1] show ?thesis by (auto intro: keeps_trans)
  next
    case (Panic p s1)
    with k show ?thesis by simp
  next
    case (Block s1)
    with k show ?thesis by simp
  qed
qed

lemma keeps_iteration: "keeps s (state_of (iteration fr s))"
proof -
  obtain messageType msg err where fr: "fr = (messageType, msg, err)"
    by (cases fr)
  let ?s1 = "emit ReadMessage s"
  have k1: "keeps s ?s1" by (simp add: keeps_emit)
  have k2: "keeps ?s1 (Shutdown ?s1)" by (rule keeps_Shutdown)
  have k3: "keeps ?s1 (state_of (range_send msg (channels ?s1) err ?s1))"
    by (rule keeps_range_send)
  show ?thesis
  proof (cases "err \<noteq> None \<or> messageType \<noteq> TextMessage")
    case True
    then show ?thesis
      using keeps_trans [OF k1 k2] by (auto simp: iteration_def fr Let_def)
  next
    case False
    show ?thesis
    proof (cases "range_send msg (channels ?s1) err ?s1")
      case (Return err1 s2)
      with k3 have "keeps ?s1 s2" by simp
      then have "keeps s s2" "keeps s (Shutdown s2)"
        using k1 keeps_Shutdown [of s2] by (blast intro: keeps_trans)+
      with False Return show ?thesis by (simp add: iteration_def fr Let_def)
    next
      case (Panic p s2)
      with k3 k1 False show ?thesis by (auto simp: iteration_def fr Let_def intro: keeps_trans)
    next
      case (Block s2)
      with k3 k1 False show ?thesis by (auto simp: iteration_def fr Let_def intro: keeps_trans)
    qed
  qed
qed

lemma loop_keeps:
  "keeps s (state_of (loop env frames err s)) \<and>
   (\<forall>err1 s1. loop env frames err s = Return err1 s1 \<longrightarrow> err1 = err \<and> didShutdown s1)"
proof (induction frames arbitrary: env s)
  case Nil
  have k: "keeps s (state_of (calls (first_calls env) s))" by (rule keeps_calls)
  then show ?case by (cases "calls (first_calls env) s") auto
next
  case (Cons fr frames)
  have k: "keeps s (state_of (calls (first_calls env) s))" by (rule keeps_calls)
  show ?case
  proof (cases "calls (first_calls env) s")
    case (Return u s0)
    with k have k0: "keeps s s0" by simp
    show ?thesis
    proof (cases "didShutdown s0")
      case True
      with Return k0 show ?thesis by simp
    next
      case False
      have ki: "keeps s0 (state_of (iteration fr s0))" by (rule keeps_iteration)
      show ?thesis
      proof (cases "iteration fr s0")
        case r: (Return u1 s1)
        with ki k0 have "keeps s s1" by (auto intro: keeps_trans)
        with Cons [of s1 "tl env"] Return False r show ?thesis
          by (auto intro: keeps_trans)
      next
        case (Panic p s1)
        with ki k0 Return False show ?thesis by (auto intro: keeps_trans)
      next
        case (Block s1)
        with ki k0 Return False show ?thesis by (auto intro: keeps_trans)
      qed
    qed
  next
    case (Panic p s0)
    with k show ?thesis by simp
  next
    case (Block s0)
    with k show ?thesis by simp
  qed
qed

lemma keeps_range_unsubscribe: "keeps s (state_of (range_unsubscribe reg s))"
proof (induction reg arbitrary: s)
  case Nil
  show ?case by (simp add: keeps_refl)
next
  case (Cons kv reg)
  obtain key v where kv: "kv = (key, v)" by (cases kv)
  let ?s0 = "emit (LogInfo (''shutting down: '' @ key)) s"
  have k0: "keeps s ?s0" by (simp add: keeps_emit)
  have k: "keeps ?s0 (state_of (Unsubscribe key ?s0))" by (rule keeps_Unsubscribe)
  show ?case
  proof (cases "Unsubscribe key ?s0")
    case (Return u s1)
    with k k0 have "keeps s s1" by (auto intro: keeps_trans)
    with Cons [of s1] Return show ?thesis by (auto simp: kv intro: keeps_trans)
  next
    case (Panic p s1)
    with k k0 show ?thesis by (auto simp: kv intro: keeps_trans)
  next
    case (Block s1)
    with k k0 show ?thesis by (auto simp: kv intro: keeps_trans)
  qed
qed

lemma teardown_Return:
  "teardown err s = Return e s' \<longleftrightarrow>
     (\<exists>s1. range_unsubscribe (channels s) s = Return () s1 \<and>
        e = errors_Join [close_error (inputConnection s1), err] \<and> s' = emit ConnClose s1)"
  by (cases "range_unsubscribe (channels s) s") (auto simp: teardown_def conn_Close_def)

lemma teardown_closes:
  "inputConnection (state_of (teardown err s)) = inputConnection s \<and>
   (didShutdown s \<longrightarrow> didShutdown (state_of (teardown err s))) \<and>
   count_list (trace (state_of (teardown err s))) ConnClose =
     (case teardown err s of
        Return e s' \<Rightarrow> Suc (count_list (trace s) ConnClose)
      | Panic p s' \<Rightarrow> count_list (trace s) ConnClose
      | Block s' \<Rightarrow> count_list (trace s) ConnClose)"
proof -
  have k: "keeps s (state_of (range_unsubscribe (channels s) s))"
    by (rule keeps_range_unsubscribe)
  show ?thesis
    using k
    by (cases "range_unsubscribe (channels s) s")
      (simp_all add: teardown_def conn_Close_def keeps_def emit_def)
qed

lemma Dispatch_Return:
  "Dispatch env frames s = Return e s' \<longleftrightarrow>
     (\<exists>s1. loop env frames None s = Return None s1 \<and> teardown None s1 = Return e s')"
proof (cases "loop env frames None s")
  case (Return err s1)
  with loop_keeps [of s env frames None] have "err = None" by simp
  with Return show ?thesis by (simp add: Dispatch_def)
qed (simp_all add: Dispatch_def)

lemma Dispatch_error:
  assumes "Dispatch env frames s = Return e s'"
  shows "e = errors_Join [close_error (inputConnection s), None]"
proof -
  from assms obtain s1 where l: "loop env frames None s = Return None s1"
    and t: "teardown None s1 = Return e s'"
    by (auto simp: Dispatch_Return)
  from t obtain s2 where r: "range_unsubscribe (channels s1) s1 = Return () s2"
    and e: "e = errors_Join [close_error (inputConnection s2), None]"
    by (auto simp: teardown_Return)
  have "keeps s s1" using loop_keeps [of s env frames None] l by simp
  moreover have "keeps s1 s2" using keeps_range_unsubscribe [of s1 "channels s1"] r by simp
  ultimately have "inputConnection s2 = inputConnection s" by (simp add: keeps_def)
  with e show ?thesis by simp
qed

lemma Dispatch_closes:
  "(didShutdown s \<longrightarrow> didShutdown (state_of (Dispatch env frames s))) \<and>
   count_list (trace (state_of (Dispatch env frames s))) ConnClose =
     (case Dispatch env frames s of
        Return e s' \<Rightarrow> Suc (count_list (trace s) ConnClose)
      | Panic p s' \<Rightarrow> count_list (trace s) ConnClose
      | Block s' \<Rightarrow> count_list (trace s) ConnClose)"
proof -
  have k: "keeps s (state_of (loop env frames None s))"
    using loop_keeps [of s env frames None] by simp
  show ?thesis
  proof (cases "loop env frames None s")
    case (Return err s1)
    with k have k1: "keeps s s1" by simp
    have d: "Dispatch env frames s = teardown err s1"
      using Return by (simp add: Dispatch_def)
    show ?thesis
      using teardown_closes [of err s1] k1
      by (cases "teardown err s1") (simp_all add: d keeps_def)
  next
    case (Panic p s1)
    with k show ?thesis by (simp add: Dispatch_def keeps_def)
  next
    case (Block s1)
    with k show ?thesis by (simp add: Dispatch_def keeps_def)
  qed
qed

lemma Shutdown_funpow: "(Shutdown ^^ Suc n) s = Shutdown s"
  by (induction n) (simp_all add: Shutdown_def)

subsection \<open>Broadcasting a frame\<close>

lemma entries_simps [simp]:
  "entries [] = []"
  "entries ((key, c) # reg) = (key, Chan c) # entries reg"
  by (simp_all add: entries_def)

lemma visited_entries [simp]: "visited (entries reg) = reg"
  by (induction reg) auto

lemma entries_visited_iff: "entries (visited reg) = reg \<longleftrightarrow> NotChan \<notin> snd ` set reg"
  by (induction reg rule: visited.induct) (auto simp: image_iff)

lemma open_channels_Cons:
  "open_channels ((key, c) # reg) s \<longleftrightarrow>
     key \<notin> fst ` set reg \<and> c \<notin> snd ` set reg \<and> c < length (heap s) \<and>
     \<not> chan_closed (heap s ! c) \<and> open_channels reg s"
  by (auto simp: open_channels_def)

lemma open_channels_Nil [simp]: "open_channels [] s"
  by (simp add: open_channels_def)

lemma open_channels_cong:
  assumes "open_channels reg s" and "c \<notin> snd ` set reg"
    and "length (heap s1) = length (heap s)"
    and "\<forall>d. d \<noteq> c \<longrightarrow> heap s1 ! d = heap s ! d"
  shows "open_channels reg s1"
  using assms unfolding open_channels_def by (metis image_set)

lemma chan_send_open:
  assumes "c < length (heap s)" and "\<not> chan_closed (heap s ! c)"
  shows "chan_send c ev s =
    Return () (s\<lparr>heap := (heap s)[c := (heap s ! c)\<lparr>chan_sent := chan_sent (heap s ! c) @ [ev]\<rparr>],
                 trace := trace s @ [ChanSend c ev]\<rparr>)"
  using assms by (simp add: chan_send_def emit_def)

lemma range_send_visited:
  assumes "open_channels (visited reg) s"
  shows "\<exists>s'. range_send msg reg err s =
        Return (if entries (visited reg) = reg then err else Some (errors_New ''not a channel'')) s' \<and>
      inputConnection s' = inputConnection s \<and>
      channels s' = channels s \<and>
      didShutdown s' = (didShutdown s \<or> entries (visited reg) \<noteq> reg) \<and>
      length (heap s') = length (heap s) \<and>
      (\<forall>d. heap s' ! d =
         (if d \<in> snd ` set (visited reg)
          then (heap s ! d)\<lparr>chan_sent := chan_sent (heap s ! d) @ [\<lparr>message = msg\<rparr>]\<rparr>
          else heap s ! d)) \<and>
      trace s' = trace s @ map (\<lambda>(key, c). ChanSend c \<lparr>message = msg\<rparr>) (visited reg)"
  using assms
proof (induction reg arbitrary: s rule: visited.induct)
  case 1
  show ?case by simp
next
  case (2 key c rest)
  let ?ev = "\<lparr>message = msg\<rparr>"
  let ?s1 = "s\<lparr>heap := (heap s)[c := (heap s ! c)\<lparr>chan_sent := chan_sent (heap s ! c) @ [?ev]\<rparr>],
                 trace := trace s @ [ChanSend c ?ev]\<rparr>"
  from "2.prems" have c: "c < length (heap s)" "\<not> chan_closed (heap s ! c)"
    and n: "c \<notin> snd ` set (visited rest)" and o: "open_channels (visited rest) s"
    by (simp_all add: open_channels_Cons)
  have send: "chan_send c ?ev s = Return () ?s1"
    by (rule chan_send_open [OF c])
  have o1: "open_channels (visited rest) ?s1"
    by (rule open_channels_cong [OF o n]) simp_all
  from "2.IH" [OF o1] obtain s' where
    r: "range_send msg rest err ?s1 =
        Return (if entries (visited rest) = rest then err else Some (errors_New ''not a channel'')) s'"
    and i: "inputConnection s' = inputConnection ?s1"
    and ch: "channels s' = channels ?s1"
    and sh: "didShutdown s' = (didShutdown ?s1 \<or> entries (visited rest) \<noteq> rest)"
    and l: "length (heap s') = length (heap ?s1)"
    and h: "\<forall>d. heap s' ! d =
         (if d \<in> snd ` set (visited rest)
          then (heap ?s1 ! d)\<lparr>chan_sent := chan_sent (heap ?s1 ! d) @ [?ev]\<rparr>
          else heap ?s1 ! d)"
    and t: "trace s' = trace ?s1 @ map (\<lambda>(key, c). ChanSend c ?ev) (visited rest)"
    by blast
  have r': "range_send msg ((key, Chan c) # rest) err s =
        Return (if entries (visited ((key, Chan c) # rest)) = (key, Chan c) # rest then err
                else Some (errors_New ''not a channel'')) s'"
    using send r by simp
  have h': "\<forall>d. heap s' ! d =
         (if d \<in> snd ` set (visited ((key, Chan c) # rest))
          then (heap s ! d)\<lparr>chan_sent := chan_sent (heap s ! d) @ [?ev]\<rparr>
          else heap s ! d)"
  proof
    fix d
    show "heap s' ! d =
         (if d \<in> snd ` set (visited ((key, Chan c) # rest))
          then (heap s ! d)\<lparr>chan_sent := chan_sent (heap s ! d) @ [?ev]\<rparr>
          else heap s ! d)"
    proof (cases "d = c")
      case True
      then show ?thesis using h n c by simp
    next
      case False
      then show ?thesis using h by simp
    qed
  qed
  have t': "trace s' = trace s @ map (\<lambda>(key, c). ChanSend c ?ev) (visited ((key, Chan c) # rest))"
    using t by simp
  have sh': "didShutdown s' = (didShutdown s \<or> entries (visited ((key, Chan c) # rest)) \<noteq> (key, Chan c) # rest)"
    using sh by simp
  from r' i ch sh' l h' t' show ?case by auto
next
  case (3 key rest)
  show ?case by (simp add: Shutdown_simps)
qed

lemma iteration_text:
  assumes o: "open_channels (visited (channels s)) s"
  shows "\<exists>s'. iteration (TextMessage, msg, None) s = Return () s' \<and>
      inputConnection s' = inputConnection s \<and>
      channels s' = channels s \<and>
      didShutdown s' = (didShutdown s \<or> entries (visited (channels s)) \<noteq> channels s) \<and>
      length (heap s') = length (heap s) \<and>
      (\<forall>d. heap s' ! d =
         (if d \<in> snd ` set (visited (channels s))
          then (heap s ! d)\<lparr>chan_sent := chan_sent (heap s ! d) @ [\<lparr>message = msg\<rparr>]\<rparr>
          else heap s ! d)) \<and>
      trace s' = trace s @ ReadMessage #
        map (\<lambda>(key, c). ChanSend c \<lparr>message = msg\<rparr>) (visited (channels s))"
proof -
  let ?s1 = "emit ReadMessage s"
  let ?ok = "entries (visited (channels s)) = channels s"
  have o1: "open_channels (visited (channels ?s1)) ?s1"
    using o by (simp add: open_channels_def emit_simps)
  from range_send_visited [OF o1, of msg None] obtain s2 where
    r: "range_send msg (channels ?s1) None ?s1 =
        Return (if ?ok then None else Some (errors_New ''not a channel'')) s2"
    and i: "inputConnection s2 = inputConnection s"
    and ch: "channels s2 = channels s"
    and sh: "didShutdown s2 = (didShutdown s \<or> \<not> ?ok)"
    and l: "length (heap s2) = length (heap s)"
    and h: "\<forall>d. heap s2 ! d =
         (if d \<in> snd ` set (visited (channels s))
          then (heap s ! d)\<lparr>chan_sent := chan_sent (heap s ! d) @ [\<lparr>message = msg\<rparr>]\<rparr>
          else heap s ! d)"
    and t: "trace s2 = trace s @ ReadMessage #
        map (\<lambda>(key, c). ChanSend c \<lparr>message = msg\<rparr>) (visited (channels s))"
    by (auto simp: emit_simps)
  show ?thesis
  proof (cases ?ok)
    case True
    then have "iteration (TextMessage, msg, None) s = Return () s2"
      using r by (simp add: iteration_def Let_def)
    with i ch sh l h t show ?thesis by blast
  next
    case False
    then have "iteration (TextMessage, msg, None) s = Return () (Shutdown s2)"
      using r by (simp add: iteration_def Let_def)
    moreover have "didShutdown (Shutdown s2) = (didShutdown s \<or> \<not> ?ok)"
      using False by (simp add: Shutdown_simps)
    ultimately show ?thesis using i ch l h t by (simp add: Shutdown_simps)
  qed
qed



subsection \<open>Draining the registry\<close>

lemma filter_delete:
  "filter P (AList.delete k al) = filter (\<lambda>p. fst p \<noteq> k \<and> P p) al"
  by (induction al) auto

lemma Unsubscribe_Return:
  assumes "Unsubscribe session s = Return u s1"
  shows "\<exists>c. map_of (channels s) session = Some (Chan c) \<and>
    c < length (heap s) \<and> \<not> chan_closed (heap s ! c)"
  using assms
  by (auto simp: Unsubscribe_def chan_close_def
      split: option.splits any.splits result.splits if_splits)

lemma range_unsubscribe_open:
  assumes "open_channels reg s"
    and "\<forall>(key, c) \<in> set reg. map_of (channels s) key = Some (Chan c)"
  shows "\<exists>s'. range_unsubscribe (entries reg) s = Return () s' \<and>
      inputConnection s' = inputConnection s \<and>
      didShutdown s' = didShutdown s \<and>
      channels s' = filter (\<lambda>p. fst p \<notin> fst ` set reg) (channels s) \<and>
      length (heap s') = length (heap s) \<and>
      (\<forall>d. heap s' ! d =
         (if d \<in> snd ` set reg then (heap s ! d)\<lparr>chan_closed := True\<rparr> else heap s ! d)) \<and>
      trace s' = trace s @
        concat (map (\<lambda>(key, c). [LogInfo (''shutting down: '' @ key), ChanClose c, MapDelete key]) reg)"
  using assms
proof (induction reg arbitrary: s)
  case Nil
  show ?case by simp
next
  case (Cons kc reg)
  obtain key c where kc: "kc = (key, c)" by (cases kc)
  let ?s0 = "emit (LogInfo (''shutting down: '' @ key)) s"
  let ?s1 = "?s0\<lparr>channels := AList.delete key (channels ?s0),
                 heap := (heap ?s0)[c := (heap ?s0 ! c)\<lparr>chan_closed := True\<rparr>],
                 trace := trace ?s0 @ [ChanClose c, MapDelete key]\<rparr>"
  from Cons.prems(1) have k: "key \<notin> fst ` set reg" and n: "c \<notin> snd ` set reg"
    and c: "c < length (heap s)" "\<not> chan_closed (heap s ! c)"
    and o: "open_channels reg s"
    by (simp_all add: kc open_channels_Cons)
  have m: "map_of (channels ?s0) key = Some (Chan c)"
    using Cons.prems(2) by (simp add: kc emit_simps)
  have u: "Unsubscribe key ?s0 = Return () ?s1"
    by (rule Unsubscribe_open [OF m]) (simp_all add: emit_simps c)
  have o1: "open_channels reg ?s1"
    by (rule open_channels_cong [OF o n]) (simp_all add: emit_simps)
  have m1: "\<forall>(key', c') \<in> set reg. map_of (channels ?s1) key' = Some (Chan c')"
  proof (clarify)
    fix key' c'
    assume a: "(key', c') \<in> set reg"
    then have "key' \<noteq> key" using k by (force simp: image_iff)
    moreover have "map_of (channels s) key' = Some (Chan c')"
      using Cons.prems(2) a by auto
    ultimately show "map_of (channels ?s1) key' = Some (Chan c')"
      by (simp add: emit_simps delete_conv)
  qed
  from Cons.IH [OF o1 m1] obtain s' where
    r: "range_unsubscribe (entries reg) ?s1 = Return () s'"
    and i: "inputConnection s' = inputConnection ?s1"
    and sh: "didShutdown s' = didShutdown ?s1"
    and ch: "channels s' = filter (\<lambda>p. fst p \<notin> fst ` set reg) (channels ?s1)"
    and l: "length (heap s') = length (heap ?s1)"
    and h: "\<forall>d. heap s' ! d =
         (if d \<in> snd ` set reg then (heap ?s1 ! d)\<lparr>chan_closed := True\<rparr> else heap ?s1 ! d)"
    and t: "trace s' = trace ?s1 @
        concat (map (\<lambda>(key, c). [LogInfo (''shutting down: '' @ key), ChanClose c, MapDelete key]) reg)"
    by blast
  have r': "range_unsubscribe (entries (kc # reg)) s = Return () s'"
    using u r by (simp add: kc)
  have i': "inputConnection s' = inputConnection s" using i by (simp add: emit_simps)
  have sh': "didShutdown s' = didShutdown s" using sh by (simp add: emit_simps)
  have ch': "channels s' = filter (\<lambda>p. fst p \<notin> fst ` set (kc # reg)) (channels s)"
    using ch by (simp add: emit_simps filter_delete kc)
  have l': "length (heap s') = length (heap s)" using l by (simp add: emit_simps)
  have h': "\<forall>d. heap s' ! d =
         (if d \<in> snd ` set (kc # reg) then (heap s ! d)\<lparr>chan_closed := True\<rparr> else heap s ! d)"
  proof
    fix d
    show "heap s' ! d =
         (if d \<in> snd ` set (kc # reg) then (heap s ! d)\<lparr>chan_closed := True\<rparr> else heap s ! d)"
    proof (cases "d = c")
      case True
      then show ?thesis using h n c by (simp add: emit_simps kc)
    next
      case False
      then show ?thesis using h by (simp add: emit_simps kc)
    qed
  qed
  have t': "trace s' = trace s @
        concat (map (\<lambda>(key, c). [LogInfo (''shutting down: '' @ key), ChanClose c, MapDelete key]) (kc # reg))"
    using t by (simp add: emit_simps kc)
  from r' i' sh' ch' l' h' t' show ?case by blast
qed

lemma map_fst_entries: "map fst (entries reg) = map fst reg"
  by (induction reg) auto

lemma range_unsubscribe_Return:
  assumes "range_unsubscribe rest s = Return u s'"
    and "distinct (map fst rest)"
    and "\<forall>(key, v) \<in> set rest. map_of (channels s) key = Some v"
  shows "\<exists>reg. rest = entries reg \<and> open_channels reg s"
  using assms
proof (induction rest arbitrary: s)
  case Nil
  show ?case by (rule exI [of _ "[]"]) simp
next
  case (Cons kv rest)
  obtain key v where kv: "kv = (key, v)" by (cases kv)
  let ?s0 = "emit (LogInfo (''shutting down: '' @ key)) s"
  from Cons.prems(1) obtain s1 where u: "Unsubscribe key ?s0 = Return () s1"
    and r: "range_unsubscribe rest s1 = Return u s'"
    by (cases "Unsubscribe key ?s0") (simp_all add: kv)
  from Unsubscribe_Return [OF u] obtain c where
    m: "map_of (channels ?s0) key = Some (Chan c)"
    and c: "c < length (heap ?s0)" "\<not> chan_closed (heap ?s0 ! c)"
    by blast
  have v: "v = Chan c" using m Cons.prems(3) by (simp add: kv emit_simps)
  have s1: "s1 = ?s0\<lparr>channels := AList.delete key (channels ?s0),
                 heap := (heap ?s0)[c := (heap ?s0 ! c)\<lparr>chan_closed := True\<rparr>],
                 trace := trace ?s0 @ [ChanClose c, MapDelete key]\<rparr>"
    using u Unsubscribe_open [OF m c] by simp
  have k: "key \<notin> fst ` set rest" and d: "distinct (map fst rest)"
    using Cons.prems(2) by (simp_all add: kv)
  have m1: "\<forall>(key', v') \<in> set rest. map_of (channels s1) key' = Some v'"
  proof (clarify)
    fix key' v'
    assume a: "(key', v') \<in> set rest"
    then have "key' \<noteq> key" using k by (force simp: image_iff)
    moreover have "map_of (channels s) key' = Some v'"
      using Cons.prems(3) a by auto
    ultimately show "map_of (channels s1) key' = Some v'"
      by (simp add: s1 emit_simps delete_conv)
  qed
  from Cons.IH [OF r d m1] obtain reg where
    e: "rest = entries reg" and o: "open_channels reg s1"
    by blast
  have closed: "chan_closed (heap s1 ! c)" using c by (simp add: s1 emit_simps)
  have n: "c \<notin> snd ` set reg"
  proof
    assume "c \<in> snd ` set reg"
    then have "\<not> chan_closed (heap s1 ! c)" using o by (auto simp: open_channels_def)
    with closed show False by simp
  qed
  have o': "open_channels reg s"
    by (rule open_channels_cong [OF o n]) (simp_all add: s1 emit_simps)
  have "fst ` set rest = fst ` set reg"
    using map_fst_entries [of reg] unfolding e by (metis set_map)
  with k have k': "key \<notin> fst ` set reg" by simp
  have "kv # rest = entries ((key, c) # reg)" using e v by (simp add: kv)
  moreover have "open_channels ((key, c) # reg) s"
    using o' n k' c by (simp add: open_channels_Cons emit_simps)
  ultimately show ?case by blast
qed


lemma map_of_entries:
  "distinct (map fst reg) \<Longrightarrow> (key, c) \<in> set reg \<Longrightarrow>
   map_of (entries reg) key = Some (Chan c)"
  by (induction reg) force+

lemma filter_entries_empty:
  "filter (\<lambda>p. fst p \<notin> fst ` set reg) (entries reg) = []"
proof -
  have "fst p \<in> fst ` set reg" if "p \<in> set (entries reg)" for p
  proof -
    from that have "fst p \<in> set (map fst (entries reg))" by simp
    then show ?thesis by (simp only: map_fst_entries set_map)
  qed
  then show ?thesis by (simp add: filter_empty_conv)
qed

lemma teardown_open:
  assumes e: "channels s = entries reg" and o: "open_channels reg s"
  shows "\<exists>s'. teardown err s =
        Return (errors_Join [close_error (inputConnection s), err]) s' \<and>
      trace s' = trace s @
        concat (map (\<lambda>(key, c). [LogInfo (''shutting down: '' @ key), ChanClose c, MapDelete key]) reg) @
        [ConnClose] \<and>
      channels s' = [] \<and>
      didShutdown s' = didShutdown s \<and>
      length (heap s') = length (heap s) \<and>
      (\<forall>d. heap s' ! d =
         (if d \<in> snd ` set reg then (heap s ! d)\<lparr>chan_closed := True\<rparr> else heap s ! d))"
proof -
  have d: "distinct (map fst reg)" using o by (simp add: open_channels_def)
  have m: "\<forall>(key, c) \<in> set reg. map_of (channels s) key = Some (Chan c)"
    using map_of_entries [OF d] e by auto
  from range_unsubscribe_open [OF o m] obtain s1 where
    r: "range_unsubscribe (entries reg) s = Return () s1"
    and i: "inputConnection s1 = inputConnection s"
    and sh: "didShutdown s1 = didShutdown s"
    and ch: "channels s1 = filter (\<lambda>p. fst p \<notin> fst ` set reg) (channels s)"
    and l: "length (heap s1) = length (heap s)"
    and h: "\<forall>d. heap s1 ! d =
         (if d \<in> snd ` set reg then (heap s ! d)\<lparr>chan_closed := True\<rparr> else heap s ! d)"
    and t: "trace s1 = trace s @
        concat (map (\<lambda>(key, c). [LogInfo (''shutting down: '' @ key), ChanClose c, MapDelete key]) reg)"
    by blast
  have td: "teardown err s =
      Return (errors_Join [close_error (inputConnection s), err]) (emit ConnClose s1)"
    using r e i by (simp add: teardown_def conn_Close_def)
  have ch0: "channels (emit ConnClose s1) = []"
    using ch e by (simp add: emit_simps filter_entries_empty)
  show ?thesis
    using td ch0 sh l h t by (intro exI [of _ "emit ConnClose s1"]) (simp add: emit_simps)
qed

lemma teardown_Return_open:
  assumes "teardown err s = Return e s'" and d: "distinct (map fst (channels s))"
  shows "\<exists>reg. channels s = entries reg \<and> open_channels reg s"
proof -
  from assms(1) obtain s1 where r: "range_unsubscribe (channels s) s = Return () s1"
    by (auto simp: teardown_Return)
  have m: "\<forall>(key, v) \<in> set (channels s). map_of (channels s) key = Some v"
    using d by (auto intro: map_of_is_SomeI)
  from range_unsubscribe_Return [OF r d m] show ?thesis .
qed

subsection \<open>Errors of the dialer\<close>

lemma foldr_max_ge: "a \<in> set xs \<Longrightarrow> a \<le> foldr max xs (0::nat)"
  by (induction xs) (auto simp: max_def)

lemma errors_Is_pointers: "errors_Is e t \<Longrightarrow> t \<in> set (pointers e)"
  by (induction e) (auto simp: list_ex_iff)

lemma errors_Is_new_DNSError: "\<not> errors_Is err (new_DNSError err)"
proof
  assume "errors_Is err (new_DNSError err)"
  then have "new_DNSError err \<in> set (pointers err)" by (rule errors_Is_pointers)
  then have "new_DNSError err \<le> foldr max (pointers err) 0" by (rule foldr_max_ge)
  then show False by (simp add: new_DNSError_def)
qed

lemma createEventHub_DialFailed:
  "createEventHub url (DialFailed err # script) = Some (None, Some err, [Println url, Dial url])"
  by (simp add: createEventHub_def errors_Is_new_DNSError)

lemma createEventHub_Connected:
  "createEventHub url (Connected c # script) =
     Some (Some \<lparr>inputConnection = c, channels = [], didShutdown = False, heap = [], trace = []\<rparr>,
           None, [Println url, Dial url])"
  by (simp add: createEventHub_def)

subsection \<open>The registry invariant\<close>

lemma well_formed_iff:
  "well_formed s \<longleftrightarrow> (\<exists>reg. channels s = entries reg \<and> open_channels reg s)"
proof
  assume "well_formed s"
  then show "\<exists>reg. channels s = entries reg \<and> open_channels reg s"
    unfolding well_formed_def by blast
next
  assume "\<exists>reg. channels s = entries reg \<and> open_channels reg s"
  then obtain reg where "channels s = entries reg" "open_channels reg s" by blast
  then show "well_formed s" by (simp add: well_formed_def)
qed

lemma entries_update:
  "AList.update key (Chan c) (entries reg) = entries (AList.update key c reg)"
  by (induction reg) auto

lemma entries_delete:
  "AList.delete key (entries reg) = entries (AList.delete key reg)"
  by (induction reg) auto

lemma snd_update_subset: "snd ` set (AList.update k v al) \<subseteq> insert v (snd ` set al)"
  by (induction al) auto

lemma distinct_snd_update:
  "distinct (map snd al) \<Longrightarrow> v \<notin> snd ` set al \<Longrightarrow>
   distinct (map snd (AList.update k v al))"
proof (induction al)
  case Nil
  show ?case by simp
next
  case (Cons p al)
  have "snd ` set (AList.update k v al) \<subseteq> insert v (snd ` set al)"
    by (rule snd_update_subset)
  with Cons show ?case by (cases p) auto
qed

lemma set_delete: "set (AList.delete k al) = {p \<in> set al. fst p \<noteq> k}"
  by (induction al) auto

lemma distinct_snd_delete:
  "distinct (map snd al) \<Longrightarrow> distinct (map snd (AList.delete k al))"
  by (induction al) (auto simp: set_delete)

lemma well_formed_Shutdown: "well_formed (Shutdown s) = well_formed s"
  by (simp add: well_formed_def open_channels_def Shutdown_simps)

lemma well_formed_Subscribe:
  assumes "well_formed s"
  shows "well_formed (state_of (Subscribe session s))"
proof -
  from assms obtain reg where e: "channels s = entries reg" and o: "open_channels reg s"
    by (auto simp: well_formed_iff)
  let ?c = "length (heap s)"
  let ?reg = "AList.update session ?c reg"
  let ?s' = "state_of (Subscribe session s)"
  have fresh: "?c \<notin> snd ` set reg"
    using o by (auto simp: open_channels_def)
  have e': "channels ?s' = entries ?reg"
    by (simp add: Subscribe_eq e entries_update)
  have d1: "distinct (map fst ?reg)"
    using o by (simp add: open_channels_def distinct_update)
  have d2: "distinct (map snd ?reg)"
    using o fresh by (simp add: open_channels_def distinct_snd_update)
  have op: "\<forall>c \<in> set (map snd ?reg). c < length (heap ?s') \<and> \<not> chan_closed (heap ?s' ! c)"
  proof
    fix c
    assume "c \<in> set (map snd ?reg)"
    then have "c = ?c \<or> c \<in> snd ` set reg"
      using snd_update_subset [of session ?c reg] by auto
    then show "c < length (heap ?s') \<and> \<not> chan_closed (heap ?s' ! c)"
    proof
      assume "c = ?c"
      then show ?thesis by (simp add: Subscribe_eq)
    next
      assume "c \<in> snd ` set reg"
      then have "c < length (heap s)" "\<not> chan_closed (heap s ! c)"
        using o by (auto simp: open_channels_def)
      then show ?thesis by (simp add: Subscribe_eq nth_append)
    qed
  qed
  have "open_channels ?reg ?s'"
    using d1 d2 op by (simp only: open_channels_def simp_thms)
  with e' show ?thesis by (auto simp: well_formed_iff)
qed

lemma well_formed_Unsubscribe:
  assumes "well_formed s"
  shows "well_formed (state_of (Unsubscribe session s))"
proof -
  from assms obtain reg where e: "channels s = entries reg" and o: "open_channels reg s"
    by (auto simp: well_formed_iff)
  show ?thesis
  proof (cases "map_of (channels s) session")
    case None
    then show ?thesis using assms by (simp add: Unsubscribe_def)
  next
    case (Some v)
    have "(session, v) \<in> set (entries reg)"
      using Some e by (simp add: map_of_SomeD)
    then obtain c where v: "v = Chan c" and m: "(session, c) \<in> set reg"
      by (auto simp: entries_def)
    have c: "c < length (heap s)" "\<not> chan_closed (heap s ! c)"
      using o m by (force simp: open_channels_def)+
    have look: "map_of (channels s) session = Some (Chan c)" using Some v by simp
    let ?reg = "AList.delete session reg"
    let ?s' = "state_of (Unsubscribe session s)"
    have u: "?s' = s\<lparr>channels := AList.delete session (channels s),
                 heap := (heap s)[c := (heap s ! c)\<lparr>chan_closed := True\<rparr>],
                 trace := trace s @ [ChanClose c, MapDelete session]\<rparr>"
      by (simp add: Unsubscribe_open [OF look c])
    have e': "channels ?s' = entries ?reg"
      by (simp add: u e entries_delete)
    have n: "c \<notin> snd ` set ?reg"
    proof
      assume "c \<in> snd ` set ?reg"
      then obtain k where k: "(k, c) \<in> set reg" "k \<noteq> session"
        by (auto simp: set_delete)
      have "inj_on snd (set reg)"
        using o by (simp add: open_channels_def distinct_map)
      from inj_onD [OF this, of "(k, c)" "(session, c)"] k m show False by simp
    qed
    have o1: "open_channels ?reg s"
      using o unfolding open_channels_def
      by (auto simp: distinct_delete distinct_snd_delete set_delete)
    have "open_channels ?reg ?s'"
      by (rule open_channels_cong [OF o1 n]) (simp_all add: u)
    with e' show ?thesis by (auto simp: well_formed_iff)
  qed
qed

lemma well_formed_call:
  assumes "well_formed s"
  shows "well_formed (state_of (call c s))"
proof (cases c)
  case (CallSubscribe session)
  have "well_formed (state_of (Subscribe session s))"
    by (rule well_formed_Subscribe [OF assms])
  with CallSubscribe show ?thesis by (cases "Subscribe session s") simp_all
next
  case (CallUnsubscribe session)
  then show ?thesis using well_formed_Unsubscribe [OF assms] by simp
next
  case CallShutdown
  then show ?thesis using assms by (simp add: well_formed_Shutdown)
qed

lemma well_formed_calls:
  assumes "well_formed s"
  shows "well_formed (state_of (calls cs s))"
  using assms
proof (induction cs arbitrary: s)
  case Nil
  then show ?case by simp
next
  case (Cons c cs)
  have w: "well_formed (state_of (call c s))"
    by (rule well_formed_call [OF Cons.prems])
  show ?case
  proof (cases "call c s")
    case (Return u s1)
    with w Cons.IH [of s1] show ?thesis by simp
  next
    case (Panic p s1)
    with w show ?thesis by simp
  next
    case (Block s1)
    with w show ?thesis by simp
  qed
qed


lemma well_formed_emit: "well_formed (emit e s) = well_formed s"
  by (simp add: well_formed_def open_channels_def emit_simps)

lemma well_formed_iteration:
  assumes w: "well_formed s"
  shows "\<exists>s'. iteration fr s = Return () s' \<and> well_formed s'"
proof -
  obtain messageType msg err where fr: "fr = (messageType, msg, err)"
    by (cases fr)
  show ?thesis
  proof (cases "err \<noteq> None \<or> messageType \<noteq> TextMessage")
    case True
    then have "iteration fr s = Return () (Shutdown (emit ReadMessage s))"
      by (auto simp: iteration_def fr Let_def)
    moreover have "well_formed (Shutdown (emit ReadMessage s))"
      using w by (simp add: well_formed_Shutdown well_formed_emit)
    ultimately show ?thesis by blast
  next
    case False
    then have fr': "fr = (TextMessage, msg, None)" by (simp add: fr)
    have o: "open_channels (visited (channels s)) s"
      using w by (simp add: well_formed_def)
    from iteration_text [OF o, of msg] obtain s' where
      it: "iteration (TextMessage, msg, None) s = Return () s'"
      and ch: "channels s' = channels s"
      and l: "length (heap s') = length (heap s)"
      and h: "\<forall>d. heap s' ! d =
         (if d \<in> snd ` set (visited (channels s))
          then (heap s ! d)\<lparr>chan_sent := chan_sent (heap s ! d) @ [\<lparr>message = msg\<rparr>]\<rparr>
          else heap s ! d)"
      by blast
    have "open_channels (visited (channels s)) s'"
      using o l h unfolding open_channels_def by simp
    then have "well_formed s'"
      using w ch by (simp add: well_formed_def)
    with it fr' show ?thesis by blast
  qed
qed

lemma well_formed_loop:
  assumes "well_formed s" and "loop env frames err s = Return err1 s1"
  shows "well_formed s1"
  using assms
proof (induction frames arbitrary: env s)
  case Nil
  have w: "well_formed (state_of (calls (first_calls env) s))"
    by (rule well_formed_calls [OF Nil.prems(1)])
  show ?case
    using Nil.prems(2) w
    by (cases "calls (first_calls env) s") (auto split: if_splits)
next
  case (Cons fr frames)
  have w: "well_formed (state_of (calls (first_calls env) s))"
    by (rule well_formed_calls [OF Cons.prems(1)])
  show ?case
  proof (cases "calls (first_calls env) s")
    case (Return u s0)
    with w have w0: "well_formed s0" by simp
    show ?thesis
    proof (cases "didShutdown s0")
      case True
      with Return Cons.prems(2) w0 show ?thesis by simp
    next
      case False
      from well_formed_iteration [OF w0, of fr] obtain s2 where
        it: "iteration fr s0 = Return () s2" and w2: "well_formed s2"
        by blast
      have "loop (tl env) frames err s2 = Return err1 s1"
        using Cons.prems(2) Return False it by simp
      from Cons.IH [OF w2 this] show ?thesis .
    qed
  next
    case (Panic p s0)
    with Cons.prems(2) show ?thesis by simp
  next
    case (Block s0)
    with Cons.prems(2) show ?thesis by simp
  qed
qed

lemma well_formed_createEventHub:
  assumes "createEventHub url script = Some (Some hub, e, tr)"
  shows "well_formed hub \<and> \<not> didShutdown hub \<and> e = None"
proof (cases script)
  case Nil
  with assms show ?thesis by (simp add: createEventHub_def)
next
  case (Cons r script1)
  show ?thesis
  proof (cases r)
    case (Connected c)
    with assms Cons show ?thesis
      by (auto simp: createEventHub_Connected well_formed_def)
  next
    case (DialFailed err)
    with assms Cons show ?thesis
      by (simp add: createEventHub_DialFailed)
  qed
qed

subsection \<open>Arrival order\<close>















subsection \<open>Unsubscribe\<close>

text \<open>
  C6. For a session key that the registry does not hold, \<^verbatim>\<open>Unsubscribe\<close> panics with
  the error "session not found", and the state at the panic, the registry included, is
  the state before the call.
\<close>

theorem Unsubscribe_unknown_session_panics:
  assumes "map_of (channels s) session = None"
  shows "Unsubscribe session s = Panic (errors_New ''session not found'') s"
  using assms by (simp add: Unsubscribe_def)

theorem Unsubscribe_unknown_session_panics_witness:
  "map_of (channels hubAB) ''C'' = None \<and>
   Unsubscribe ''C'' hubAB = Panic (ErrorString ''session not found'') hubAB"
proof -
  have h: "map_of (channels hubAB) ''C'' = None"
    by (simp add: hubAB_def)
  show ?thesis
    using h Unsubscribe_unknown_session_panics [OF h] by (simp add: errors_New_def)
qed

text \<open>
  C7. For a session key that the registry maps to an open channel, \<^verbatim>\<open>Unsubscribe\<close>
  returns after exactly two effects, closing that channel and then deleting the key.
  Afterwards the registry consists of the entries it had for the other keys, so it no
  longer leads to the channel through this key and no later broadcast sends to it on
  behalf of this key; the channel is closed and holds what was sent on it before, and no
  other channel has changed.
\<close>

theorem Unsubscribe_closes_then_removes:
  assumes "map_of (channels s) session = Some (Chan c)"
    and "c < length (heap s)" and "\<not> chan_closed (heap s ! c)"
  shows "\<exists>s'. Unsubscribe session s = Return () s' \<and>
    trace s' = trace s @ [ChanClose c, MapDelete session] \<and>
    map_of (channels s') session = None \<and>
    set (channels s') = {p \<in> set (channels s). fst p \<noteq> session} \<and>
    (\<forall>k. k \<noteq> session \<longrightarrow> map_of (channels s') k = map_of (channels s) k) \<and>
    chan_closed (heap s' ! c) \<and>
    chan_sent (heap s' ! c) = chan_sent (heap s ! c) \<and>
    length (heap s') = length (heap s) \<and>
    (\<forall>d. d \<noteq> c \<longrightarrow> heap s' ! d = heap s ! d) \<and>
    didShutdown s' = didShutdown s \<and>
    inputConnection s' = inputConnection s"
  using assms by (simp add: Unsubscribe_open delete_conv' set_delete)

theorem Unsubscribe_closes_then_removes_witness:
  "map_of (channels hubAB) ''A'' = Some (Chan 0) \<and> 0 < length (heap hubAB) \<and>
   \<not> chan_closed (heap hubAB ! 0) \<and>
   (\<exists>s'. Unsubscribe ''A'' hubAB = Return () s' \<and>
      trace s' = [ChanClose 0, MapDelete ''A''] \<and>
      channels s' = [(''B'', Chan 1)] \<and> chan_closed (heap s' ! 0))"
proof -
  have h1: "map_of (channels hubAB) ''A'' = Some (Chan 0)"
    and h2: "0 < length (heap hubAB)"
    and h3: "\<not> chan_closed (heap hubAB ! 0)"
    by (simp_all add: hubAB_def)
  from Unsubscribe_closes_then_removes [OF h1 h2 h3]
  obtain s' where r: "Unsubscribe ''A'' hubAB = Return () s'"
    and c: "chan_closed (heap s' ! 0)"
    by blast
  have e: "Unsubscribe ''A'' hubAB =
      Return () (hubAB\<lparr>channels := AList.delete ''A'' (channels hubAB),
        heap := (heap hubAB)[0 := (heap hubAB ! 0)\<lparr>chan_closed := True\<rparr>],
        trace := trace hubAB @ [ChanClose 0, MapDelete ''A'']\<rparr>)"
    by (rule Unsubscribe_open [OF h1 h2 h3])
  have "trace s' = [ChanClose 0, MapDelete ''A''] \<and> channels s' = [(''B'', Chan 1)]"
    using r e by (simp add: hubAB_def)
  with h1 h2 h3 r c show ?thesis by blast
qed

subsection \<open>Shutdown\<close>

text \<open>
  C8. \<^verbatim>\<open>Shutdown\<close> sets the shutdown flag and changes nothing else: the connection, the
  registry and every channel object stay as they are, and it has no effect on the
  outside (nothing is closed).
\<close>

theorem Shutdown_only_sets_flag:
  "didShutdown (Shutdown s) \<and>
   inputConnection (Shutdown s) = inputConnection s \<and>
   channels (Shutdown s) = channels s \<and>
   heap (Shutdown s) = heap s \<and>
   trace (Shutdown s) = trace s"
  by (simp add: Shutdown_def)

text \<open>
  C5. \<^verbatim>\<open>Shutdown\<close> is an idempotent one-way latch. Called once or more, it leaves
  the flag set, and the state is the one a single call gives. A set flag stays set under
  every method of the hub, however the method ends. Whatever \<^verbatim>\<open>Shutdown\<close> calls other
  goroutines make while \<^verbatim>\<open>Dispatch\<close> runs (\<open>env\<close> is arbitrary) and however often it
  was called before, \<^verbatim>\<open>Dispatch\<close> closes the connection once when it returns and not at
  all when it does not; the calls themselves close nothing.
\<close>

theorem Shutdown_idempotent_latch:
  "didShutdown ((Shutdown ^^ Suc n) s) \<and>
   (Shutdown ^^ Suc n) s = Shutdown s \<and>
   (didShutdown s \<longrightarrow>
      didShutdown (Shutdown s) \<and>
      didShutdown (state_of (Subscribe session s)) \<and>
      didShutdown (state_of (Unsubscribe session s)) \<and>
      didShutdown (state_of (Dispatch env frames s))) \<and>
   Dispatch env frames ((Shutdown ^^ Suc n) s) = Dispatch env frames (Shutdown s) \<and>
   count_list (trace ((Shutdown ^^ n) s)) ConnClose = count_list (trace s) ConnClose \<and>
   count_list (trace (state_of (Dispatch env frames s))) ConnClose =
     (case Dispatch env frames s of
        Return e s' \<Rightarrow> Suc (count_list (trace s) ConnClose)
      | Panic p s' \<Rightarrow> count_list (trace s) ConnClose
      | Block s' \<Rightarrow> count_list (trace s) ConnClose)"
proof -
  have a: "(Shutdown ^^ Suc n) s = Shutdown s" by (rule Shutdown_funpow)
  have b: "didShutdown ((Shutdown ^^ Suc n) s)" by (simp only: a Shutdown_simps)
  have c: "didShutdown s \<longrightarrow> didShutdown (state_of (Subscribe session s))"
    using keeps_Subscribe [of s session] by (simp add: keeps_def)
  have d: "didShutdown s \<longrightarrow> didShutdown (state_of (Unsubscribe session s))"
    using keeps_Unsubscribe [of s session] by (simp add: keeps_def)
  have e: "didShutdown s \<longrightarrow> didShutdown (state_of (Dispatch env frames s))"
    using Dispatch_closes [of s env frames] by blast
  have f: "Dispatch env frames ((Shutdown ^^ Suc n) s) = Dispatch env frames (Shutdown s)"
    by (simp only: a)
  have g: "count_list (trace ((Shutdown ^^ n) s)) ConnClose = count_list (trace s) ConnClose"
    by (cases n) (simp_all only: Shutdown_funpow Shutdown_simps funpow_0)
  have h: "count_list (trace (state_of (Dispatch env frames s))) ConnClose =
     (case Dispatch env frames s of
        Return e s' \<Rightarrow> Suc (count_list (trace s) ConnClose)
      | Panic p s' \<Rightarrow> count_list (trace s) ConnClose
      | Block s' \<Rightarrow> count_list (trace s) ConnClose)"
    using Dispatch_closes [of s env frames] by blast
  have i: "didShutdown (Shutdown s)" by (simp add: Shutdown_simps)
  show ?thesis using a b c d e f g h i by blast
qed

theorem Shutdown_idempotent_latch_witness:
  "didShutdown (Shutdown hubAB) \<and>
   (Shutdown ^^ 3) hubAB = Shutdown hubAB \<and>
   didShutdown (state_of (Subscribe ''C'' (Shutdown hubAB))) \<and>
   didShutdown (state_of (Unsubscribe ''A'' (Shutdown hubAB))) \<and>
   didShutdown (state_of
     (Dispatch [[CallShutdown, CallShutdown], [CallShutdown]] [] (Shutdown hubAB)))"
proof -
  have h: "didShutdown (Shutdown hubAB)" by (simp add: Shutdown_simps)
  show ?thesis
    using h Shutdown_idempotent_latch [where n = 2 and s = "Shutdown hubAB"
        and session = "''C''" and env = "[[CallShutdown, CallShutdown], [CallShutdown]]"
        and frames = "[]"]
      Shutdown_idempotent_latch [where n = 2 and s = "hubAB"
        and session = "''A''" and env = "[]" and frames = "[]"]
      Shutdown_idempotent_latch [where n = 2 and s = "Shutdown hubAB"
        and session = "''A''" and env = "[]" and frames = "[]"]
    by (simp add: numeral_3_eq_3)
qed

subsection \<open>Subscribe\<close>

text \<open>
  C9. When the registry, with distinct keys, already maps the session key to the channel
  \<open>old\<close> and to nothing else, \<^verbatim>\<open>Subscribe\<close> with that key returns a newly allocated
  open channel, different from \<open>old\<close>, and stores it under the key in place of the old
  entry: the registry keeps its keys, no entry of it holds \<open>old\<close> any more, the channel
  object \<open>old\<close> is as it was (it is not closed), and the only effect is the store.
\<close>

theorem Subscribe_same_key_replaces:
  assumes d: "distinct (map fst (channels s))"
    and m: "(session, Chan old) \<in> set (channels s)"
    and v: "old < length (heap s)"
    and u: "\<forall>k. (k, Chan old) \<in> set (channels s) \<longrightarrow> k = session"
  shows "\<exists>channel s'. Subscribe session s = Return channel s' \<and>
    channel = length (heap s) \<and> channel \<noteq> old \<and>
    heap s' ! channel = \<lparr>chan_closed = False, chan_sent = []\<rparr> \<and>
    map_of (channels s') session = Some (Chan channel) \<and>
    set (channels s') =
      insert (session, Chan channel) (set (channels s) - {(session, Chan old)}) \<and>
    map fst (channels s') = map fst (channels s) \<and>
    (\<forall>k. (k, Chan old) \<notin> set (channels s')) \<and>
    heap s' ! old = heap s ! old \<and>
    trace s' = trace s @ [MapStore session (Chan channel)]"
proof -
  let ?c = "length (heap s)"
  let ?s' = "s\<lparr>channels := AList.update session (Chan ?c) (channels s),
          heap := heap s @ [\<lparr>chan_closed = False, chan_sent = []\<rparr>],
          trace := trace s @ [MapStore session (Chan ?c)]\<rparr>"
  have keys: "session \<in> set (map fst (channels s))"
    using m by (force simp: image_iff)
  have only: "{p \<in> set (channels s). fst p \<noteq> session} = set (channels s) - {(session, Chan old)}"
  proof (rule set_eqI)
    fix p :: "string \<times> any"
    obtain k w where p: "p = (k, w)" by (cases p)
    show "p \<in> {p \<in> set (channels s). fst p \<noteq> session} \<longleftrightarrow>
          p \<in> set (channels s) - {(session, Chan old)}"
      using d m eq_key_imp_eq_value [of "channels s" session "Chan old" w]
      by (auto simp: p)
  qed
  have st: "set (channels ?s') = insert (session, Chan ?c) (set (channels s) - {(session, Chan old)})"
    using set_update_distinct [OF d, of session "Chan ?c"] only by simp
  have ne: "?c \<noteq> old" using v by simp
  have gone: "\<forall>k. (k, Chan old) \<notin> set (channels ?s')"
    using st u ne by auto
  have a: "Subscribe session s = Return ?c ?s'" by (rule Subscribe_eq)
  have b: "heap ?s' ! ?c = \<lparr>chan_closed = False, chan_sent = []\<rparr>" by simp
  have c: "map_of (channels ?s') session = Some (Chan ?c)" by (simp add: update_conv')
  have e: "map fst (channels ?s') = map fst (channels s)" using keys by (simp add: update_keys)
  have f: "heap ?s' ! old = heap s ! old" using v by (simp add: nth_append)
  have g: "trace ?s' = trace s @ [MapStore session (Chan ?c)]" by simp
  show ?thesis using a ne b c st e gone f g by blast
qed

theorem Subscribe_same_key_replaces_witness:
  "distinct (map fst (channels hubAB)) \<and> (''A'', Chan 0) \<in> set (channels hubAB) \<and>
   0 < length (heap hubAB) \<and>
   (\<exists>channel s'. Subscribe ''A'' hubAB = Return channel s' \<and> channel = 2 \<and>
      set (channels s') = {(''A'', Chan 2), (''B'', Chan 1)} \<and>
      heap s' ! 0 = \<lparr>chan_closed = False, chan_sent = []\<rparr> \<and>
      trace s' = [MapStore ''A'' (Chan 2)])"
proof -
  have h1: "distinct (map fst (channels hubAB))"
    and h2: "(''A'', Chan 0) \<in> set (channels hubAB)"
    and h3: "0 < length (heap hubAB)"
    and h4: "\<forall>k. (k, Chan 0) \<in> set (channels hubAB) \<longrightarrow> k = ''A''"
    by (simp_all add: hubAB_def)
  from Subscribe_same_key_replaces [OF h1 h2 h3 h4]
  obtain channel s' where r: "Subscribe ''A'' hubAB = Return channel s'"
    and c: "channel = length (heap hubAB)"
    and s: "set (channels s') =
      insert (''A'', Chan channel) (set (channels hubAB) - {(''A'', Chan 0)})"
    and o: "heap s' ! 0 = heap hubAB ! 0"
    and t: "trace s' = trace hubAB @ [MapStore ''A'' (Chan channel)]"
    by blast
  have c2: "channel = 2" using c by (simp add: hubAB_def)
  have s2: "set (channels s') = {(''A'', Chan 2), (''B'', Chan 1)}"
    using s c2 by (auto simp: hubAB_def)
  have o2: "heap s' ! 0 = \<lparr>chan_closed = False, chan_sent = []\<rparr>"
    using o by (simp add: hubAB_def)
  have t2: "trace s' = [MapStore ''A'' (Chan 2)]"
    using t c2 by (simp add: hubAB_def)
  from r c2 s2 o2 t2 h1 h2 h3 show ?thesis by blast
qed

subsection \<open>Dispatch: the error it returns\<close>

text \<open>
  C10. When \<^verbatim>\<open>Dispatch\<close> returns and closing the connection gives no error, the error
  it returns is nil. This holds whatever made the loop end, so in particular when the
  loop ended only because another goroutine had called \<^verbatim>\<open>Shutdown\<close>.
\<close>

theorem Dispatch_nil_when_close_succeeds:
  assumes "Dispatch env frames s = Return e s'"
    and "close_error (inputConnection s) = None"
  shows "e = None"
  using Dispatch_error [OF assms(1)] assms(2)
  by (simp add: errors_Join_def List.map_filter_simps)

theorem Dispatch_nil_when_close_succeeds_witness:
  "close_error (inputConnection hubAB) = None \<and>
   (\<exists>s'. Dispatch [[], [CallShutdown]]
          [(TextMessage, ''hello'', None), (TextMessage, ''world'', None)] hubAB =
      Return None s')"
proof -
  let ?d = "Dispatch [[], [CallShutdown]]
      [(TextMessage, ''hello'', None), (TextMessage, ''world'', None)] hubAB"
  have h: "close_error (inputConnection hubAB) = None"
    by (simp add: hubAB_def)
  have "\<exists>e s'. ?d = Return e s'"
    by (simp add: Dispatch_def teardown_def conn_Close_def first_calls_def iteration_def
      Shutdown_def emit_def Unsubscribe_def chan_close_def chan_send_def hubAB_def
      TextMessage_def)
  then obtain e s' where r: "?d = Return e s'" by blast
  from Dispatch_nil_when_close_succeeds [OF r h] r h show ?thesis by blast
qed

text \<open>
  C1. The claim is that the error of the condition that ended the loop is part of the
  error that \<^verbatim>\<open>Dispatch\<close> returns. In the code the read error lives in the variable
  that \<^verbatim>\<open>:=\<close> declares inside the loop; the variable that is joined with the close
  error is the one declared by \<^verbatim>\<open>var err error\<close>, which is never assigned. Evaluated
  on a hub with two subscribers whose only read fails with "connection reset" and whose
  connection closes without error, \<^verbatim>\<open>Dispatch\<close> drains both subscribers, closes the
  connection and returns nil.
\<close>

theorem Dispatch_drops_read_error:
  "Dispatch [] [(-1, [], Some (ErrorString ''connection reset''))] hubAB =
     Return None
       (hubAB\<lparr>channels := [], didShutdown := True,
          heap := [\<lparr>chan_closed = True, chan_sent = []\<rparr>, \<lparr>chan_closed = True, chan_sent = []\<rparr>],
          trace := [ReadMessage,
                    LogInfo ''shutting down: A'', ChanClose 0, MapDelete ''A'',
                    LogInfo ''shutting down: B'', ChanClose 1, MapDelete ''B'',
                    ConnClose]\<rparr>)"
  by (simp add: Dispatch_def teardown_def conn_Close_def first_calls_def iteration_def
      Shutdown_def emit_def Unsubscribe_def chan_close_def errors_Join_def hubAB_def
      List.map_filter_simps)


subsection \<open>createEventHub\<close>

text \<open>
  C3. The claim is that a name-resolution failure makes \<^verbatim>\<open>createEventHub\<close> wait two
  seconds and dial again. In the code the test is \<^verbatim>\<open>errors.Is(err, &net.DNSError{})\<close>:
  the target is a pointer to an object allocated for this very comparison, no error that
  \<^verbatim>\<open>Dial\<close> returned can be that object, and so the test fails for every error. Evaluated
  on a dialer that fails twice with "no such host" and then connects, the function
  returns the first error after a single \<^verbatim>\<open>Dial\<close>, without logging or sleeping.
\<close>

theorem createEventHub_does_not_retry:
  "createEventHub ''ws://nakama:7350/events''
     [DialFailed (OpError ''dial'' (DNSError 0 ''no such host'')),
      DialFailed (OpError ''dial'' (DNSError 1 ''no such host'')),
      Connected \<lparr>close_error = None\<rparr>] =
   Some (None, Some (OpError ''dial'' (DNSError 0 ''no such host'')),
         [Println ''ws://nakama:7350/events'', Dial ''ws://nakama:7350/events''])"
  by (simp add: createEventHub_def new_DNSError_def)


subsection \<open>Dispatch: delivery\<close>

text \<open>
  A run from a new hub. Two sessions subscribe before the first pass through the loop,
  the upstream delivers two text frames, and the third read fails: both channels receive
  the first event before either receives the second, both are then closed and removed,
  and the connection is closed once.
\<close>

lemma scenario_hello_world:
  "Dispatch [[CallSubscribe ''A'', CallSubscribe ''B'']]
     [(TextMessage, ''hello'', None), (TextMessage, ''world'', None),
      (-1, [], Some (ErrorString ''unexpected EOF''))] hub0 =
   Return None
     (hub0\<lparr>didShutdown := True,
        heap := [\<lparr>chan_closed = True,
                   chan_sent = [\<lparr>message = ''hello''\<rparr>, \<lparr>message = ''world''\<rparr>]\<rparr>,
                 \<lparr>chan_closed = True,
                   chan_sent = [\<lparr>message = ''hello''\<rparr>, \<lparr>message = ''world''\<rparr>]\<rparr>],
        trace := [MapStore ''A'' (Chan 0), MapStore ''B'' (Chan 1),
                  ReadMessage,
                  ChanSend 0 \<lparr>message = ''hello''\<rparr>, ChanSend 1 \<lparr>message = ''hello''\<rparr>,
                  ReadMessage,
                  ChanSend 0 \<lparr>message = ''world''\<rparr>, ChanSend 1 \<lparr>message = ''world''\<rparr>,
                  ReadMessage,
                  LogInfo ''shutting down: A'', ChanClose 0, MapDelete ''A'',
                  LogInfo ''shutting down: B'', ChanClose 1, MapDelete ''B'',
                  ConnClose]\<rparr>)"
  by (simp add: Dispatch_def teardown_def conn_Close_def first_calls_def iteration_def
      Subscribe_eq Shutdown_def emit_def Unsubscribe_def chan_close_def chan_send_def
      errors_Join_def hub0_def TextMessage_def List.map_filter_simps)







subsection \<open>Dispatch: teardown\<close>

text \<open>
  C4. Let the loop of \<^verbatim>\<open>Dispatch\<close> end in the state \<open>s1\<close>; the shutdown flag is then
  set. If the registry of \<open>s1\<close> holds open channels, each registered once, then
  \<^verbatim>\<open>Dispatch\<close> returns, and what it does after the loop is, for each entry in turn, one
  log line, closing the channel and deleting the key, and then one \<^verbatim>\<open>Close\<close> of the
  connection; it reads no frame. Afterwards the registry is empty, the channels that
  were registered are closed and no other channel has changed. Conversely, when
  \<^verbatim>\<open>Dispatch\<close> returns, the registry at the end of the loop was such a registry; on
  any other registry the teardown panics in \<^verbatim>\<open>Unsubscribe\<close> or in \<^verbatim>\<open>close\<close>.
  The registry at the end of the loop is such a registry whenever the one \<^verbatim>\<open>Dispatch\<close>
  started with was, whatever the frames and the calls of other goroutines in between.
\<close>

theorem Dispatch_teardown:
  assumes l: "loop env frames None s = Return err s1"
  shows "didShutdown s1 \<and>
    (\<forall>reg. channels s1 = entries reg \<and> open_channels reg s1 \<longrightarrow>
       (\<exists>s'. Dispatch env frames s =
            Return (errors_Join [close_error (inputConnection s1), err]) s' \<and>
          trace s' = trace s1 @
            concat (map (\<lambda>(key, c).
              [LogInfo (''shutting down: '' @ key), ChanClose c, MapDelete key]) reg) @
            [ConnClose] \<and>
          channels s' = [] \<and>
          length (heap s') = length (heap s1) \<and>
          (\<forall>d. heap s' ! d =
             (if d \<in> snd ` set reg then (heap s1 ! d)\<lparr>chan_closed := True\<rparr>
              else heap s1 ! d)))) \<and>
    (distinct (map fst (channels s1)) \<longrightarrow>
       (\<forall>e s'. Dispatch env frames s = Return e s' \<longrightarrow>
          (\<exists>reg. channels s1 = entries reg \<and> open_channels reg s1))) \<and>
    (well_formed s \<longrightarrow> (\<exists>reg. channels s1 = entries reg \<and> open_channels reg s1))"
proof -
  have sh: "didShutdown s1" using loop_keeps [of s env frames None] l by simp
  have c: "well_formed s \<longrightarrow> (\<exists>reg. channels s1 = entries reg \<and> open_channels reg s1)"
    using well_formed_loop [OF _ l] by (auto simp: well_formed_iff)
  have dt: "Dispatch env frames s = teardown err s1"
    using l by (simp add: Dispatch_def)
  have a: "\<forall>reg. channels s1 = entries reg \<and> open_channels reg s1 \<longrightarrow>
       (\<exists>s'. Dispatch env frames s =
            Return (errors_Join [close_error (inputConnection s1), err]) s' \<and>
          trace s' = trace s1 @
            concat (map (\<lambda>(key, c).
              [LogInfo (''shutting down: '' @ key), ChanClose c, MapDelete key]) reg) @
            [ConnClose] \<and>
          channels s' = [] \<and>
          length (heap s') = length (heap s1) \<and>
          (\<forall>d. heap s' ! d =
             (if d \<in> snd ` set reg then (heap s1 ! d)\<lparr>chan_closed := True\<rparr>
              else heap s1 ! d)))"
  proof (intro allI impI)
    fix reg
    assume "channels s1 = entries reg \<and> open_channels reg s1"
    then have e: "channels s1 = entries reg" and o: "open_channels reg s1" by simp_all
    from teardown_open [OF e o, of err]
    show "\<exists>s'. Dispatch env frames s =
            Return (errors_Join [close_error (inputConnection s1), err]) s' \<and>
          trace s' = trace s1 @
            concat (map (\<lambda>(key, c).
              [LogInfo (''shutting down: '' @ key), ChanClose c, MapDelete key]) reg) @
            [ConnClose] \<and>
          channels s' = [] \<and>
          length (heap s') = length (heap s1) \<and>
          (\<forall>d. heap s' ! d =
             (if d \<in> snd ` set reg then (heap s1 ! d)\<lparr>chan_closed := True\<rparr>
              else heap s1 ! d))"
      unfolding dt by blast
  qed
  have b: "distinct (map fst (channels s1)) \<longrightarrow>
       (\<forall>e s'. Dispatch env frames s = Return e s' \<longrightarrow>
          (\<exists>reg. channels s1 = entries reg \<and> open_channels reg s1))"
    unfolding dt using teardown_Return_open [of err s1] by blast
  from sh a b c show ?thesis by blast
qed

theorem Dispatch_teardown_witness:
  "loop [[CallShutdown]] [] None hubAB = Return None (Shutdown hubAB) \<and>
   channels (Shutdown hubAB) = entries [(''A'', 0), (''B'', 1)] \<and>
   open_channels [(''A'', 0), (''B'', 1)] (Shutdown hubAB) \<and>
   (\<exists>s'. Dispatch [[CallShutdown]] [] hubAB = Return None s' \<and>
      trace s' =
        [LogInfo ''shutting down: A'', ChanClose 0, MapDelete ''A'',
         LogInfo ''shutting down: B'', ChanClose 1, MapDelete ''B'', ConnClose] \<and>
      channels s' = [] \<and>
      chan_closed (heap s' ! 0) \<and> chan_closed (heap s' ! 1))"
proof -
  have l: "loop [[CallShutdown]] [] None hubAB = Return None (Shutdown hubAB)"
    by (simp add: first_calls_def Shutdown_simps)
  have e: "channels (Shutdown hubAB) = entries [(''A'', 0), (''B'', 1)]"
    by (simp add: Shutdown_simps hubAB_def)
  have o: "open_channels [(''A'', 0), (''B'', 1)] (Shutdown hubAB)"
    by (simp add: open_channels_def Shutdown_simps hubAB_def)
  from Dispatch_teardown [OF l] e o obtain s' where
    d: "Dispatch [[CallShutdown]] [] hubAB =
          Return (errors_Join [close_error (inputConnection (Shutdown hubAB)), None]) s'"
    and t: "trace s' = trace (Shutdown hubAB) @
            concat (map (\<lambda>(key, c).
              [LogInfo (''shutting down: '' @ key), ChanClose c, MapDelete key])
              [(''A'', 0), (''B'', 1)]) @
            [ConnClose]"
    and c: "channels s' = []"
    and h: "\<forall>d. heap s' ! d =
             (if d \<in> snd ` set [(''A'', 0::nat), (''B'', 1)]
              then (heap (Shutdown hubAB) ! d)\<lparr>chan_closed := True\<rparr>
              else heap (Shutdown hubAB) ! d)"
    by blast
  have d': "Dispatch [[CallShutdown]] [] hubAB = Return None s'"
    using d by (simp add: Shutdown_simps hubAB_def errors_Join_def List.map_filter_simps)
  have t': "trace s' =
        [LogInfo ''shutting down: A'', ChanClose 0, MapDelete ''A'',
         LogInfo ''shutting down: B'', ChanClose 1, MapDelete ''B'', ConnClose]"
    using t by (simp add: Shutdown_simps hubAB_def)
  have h': "chan_closed (heap s' ! 0)" "chan_closed (heap s' ! 1)"
    using h by simp_all
  from l e o d' t' c h' show ?thesis by blast
qed


end
